theory Spec2Isabelle
  imports Complex_Main "HOL-Library.Word" "HOL-Library.AList" "HOL-Library.Multiset"
begin

section \<open>The fuzzy string index of fuzzyset.ts\<close>

text \<open>
  The class \<open>FuzzySearch\<close> of \<open>src/fuzzyset.ts\<close> is embedded function by function.
  A method whose source name starts with an underscore is written with the prefix
  \<open>u_\<close> (\<open>_add\<close> is \<open>u_add\<close>, \<open>__get\<close> is \<open>uu_get\<close>); \<open>length\<close> is \<open>length'\<close>.

  Conventions of the embedding:
  \<^item> a string is the list of its UTF-16 code units, which is what \<open>length\<close>,
    \<open>charAt\<close> and \<open>slice\<close> count;
  \<^item> the built-in \<open>String.prototype.toLowerCase\<close> is the parameter \<open>lc\<close> of every
    function that reaches it; \<open>toLowerCase_ascii\<close> is the built-in on strings of
    ASCII code units and instantiates \<open>lc\<close> at concrete inputs;
  \<^item> numbers that the source divides or takes roots of are real numbers, and a value
    that can be \<open>NaN\<close> or infinite is a \<open>jsnum\<close>; rounding of doubles is not modelled;
  \<^item> gram sizes are natural numbers (the constructor also accepts negative and
    fractional numbers, which are outside the embedding);
  \<^item> an object used as a dictionary is a map or an association list of its own
    properties in insertion order; property names inherited from \<open>Object.prototype\<close>
    are outside the embedding. Where the source enumerates such an object with
    \<open>for ... in\<close>, keys that are canonical array indices come first in JavaScript; the
    sums and posting lists built in those loops do not depend on that order, except for
    \<open>matches\<close>, whose keys are all indices and are enumerated in ascending order.
\<close>

subsection \<open>Strings and numbers\<close>

type_synonym jschar = "16 word"
type_synonym jsstring = "jschar list"

definition str :: "string \<Rightarrow> jsstring" where
  "str s = map (\<lambda>c. of_nat (of_char c)) s"

definition dash :: jschar where
  "dash = 0x2D"

definition toLowerCase_ascii :: "jsstring \<Rightarrow> jsstring" where
  "toLowerCase_ascii s = map (\<lambda>c. if 0x41 \<le> c \<and> c \<le> 0x5A then c + 0x20 else c) s"

datatype jsnum = Num real | PosInf | NegInf | NaN

datatype error = TypeError | NullComparison

definition js_div :: "real \<Rightarrow> real \<Rightarrow> jsnum" where
  "js_div x y =
     (if y \<noteq> 0 then Num (x / y)
      else if 0 < x then PosInf else if x < 0 then NegInf else NaN)"

fun js_sub :: "jsnum \<Rightarrow> jsnum \<Rightarrow> jsnum" where
  "js_sub (Num a) (Num b) = Num (a - b)"
| "js_sub NaN _ = NaN"
| "js_sub _ NaN = NaN"
| "js_sub PosInf PosInf = NaN"
| "js_sub NegInf NegInf = NaN"
| "js_sub PosInf _ = PosInf"
| "js_sub NegInf _ = NegInf"
| "js_sub (Num a) PosInf = NegInf"
| "js_sub (Num a) NegInf = PosInf"

fun js_positive :: "jsnum \<Rightarrow> bool" where
  "js_positive (Num r) = (0 < r)"
| "js_positive PosInf = True"
| "js_positive NegInf = False"
| "js_positive NaN = False"

fun js_ge :: "jsnum \<Rightarrow> jsnum \<Rightarrow> bool" where
  "js_ge (Num a) (Num b) = (b \<le> a)"
| "js_ge NaN _ = False"
| "js_ge _ NaN = False"
| "js_ge PosInf _ = True"
| "js_ge _ NegInf = True"
| "js_ge (Num a) PosInf = False"
| "js_ge NegInf _ = False"

text \<open>
  \<open>results.sort((a, b) => b[0] - a[0])\<close>: the sort of an array is stable, and an element
  moves behind another one exactly when the comparator is positive on the pair. A
  comparator value \<open>NaN\<close> counts as zero.
\<close>

fun insert_desc :: "jsnum \<times> 'a \<Rightarrow> (jsnum \<times> 'a) list \<Rightarrow> (jsnum \<times> 'a) list" where
  "insert_desc x [] = [x]"
| "insert_desc x (y # ys) =
     (if js_positive (js_sub (fst y) (fst x)) then y # insert_desc x ys else x # y # ys)"

definition sort_desc :: "(jsnum \<times> 'a) list \<Rightarrow> (jsnum \<times> 'a) list" where
  "sort_desc xs = foldr insert_desc xs []"

subsection \<open>The index\<close>

record FuzzySearch =
  gramSizeLower :: nat
  gramSizeUpper :: nat
  useLevenshtein :: bool
  exactSet :: "(jsstring \<times> jsstring) list"
  matchDict :: "jsstring \<rightharpoonup> (nat \<times> nat) list"
  items :: "nat \<rightharpoonup> (real \<times> jsstring) list"

subsection \<open>levenshtein and \_distance\<close>

text \<open>
  The inner loop body of \<open>levenshtein\<close> at column \<open>j\<close>, on the pair \<open>(prev, current)\<close>;
  \<open>c2\<close> is \<open>str2.charAt(i - 1)\<close>.
\<close>

definition lev_inner :: "jsstring \<Rightarrow> jschar \<Rightarrow> nat \<times> nat list \<Rightarrow> nat \<Rightarrow> nat \<times> nat list" where
  "lev_inner str1 c2 pc j =
     (let prev = fst pc; current = snd pc;
          value = (if str1 ! (j - 1) = c2 then prev
                   else min (current ! j) (min (current ! (j - 1)) prev) + 1)
      in (current ! j, current[j := value]))"

definition lev_outer :: "jsstring \<Rightarrow> jsstring \<Rightarrow> nat list \<Rightarrow> nat \<Rightarrow> nat list" where
  "lev_outer str1 str2 current i =
     snd (foldl (lev_inner str1 (str2 ! (i - 1))) (current ! 0, current[0 := i])
            [1 ..< Suc (length str1)])"

definition levenshtein :: "jsstring \<Rightarrow> jsstring \<Rightarrow> nat" where
  "levenshtein str1 str2 =
     foldl (lev_outer str1 str2) [0 ..< Suc (length str1)] [1 ..< Suc (length str2)]
       ! length str1"

definition u_distance :: "jsstring option \<Rightarrow> jsstring option \<Rightarrow> error + jsnum" where
  "u_distance str1 str2 =
     (case (str1, str2) of
        (None, None) \<Rightarrow> Inl NullComparison
      | (None, Some _) \<Rightarrow> Inr (Num 0)
      | (Some _, None) \<Rightarrow> Inr (Num 0)
      | (Some s1, Some s2) \<Rightarrow>
          (let distance = levenshtein s1 s2
           in Inr (if length s2 < length s1
                   then js_sub (Num 1) (js_div (real distance) (real (length s1)))
                   else js_sub (Num 1) (js_div (real distance) (real (length s2))))))"

subsection \<open>Grams\<close>

text \<open>
  The character class of \<open>_nonWordRe\<close> is negated: \<open>wordChar\<close> holds of the code units
  the class lists. The expression is anchored at both ends and has no multiline flag, so
  \<open>replace\<close> tries it at position 0 only: the greedy run of code units outside the class
  has to be non-empty and to reach the end of the string, and then all of it is replaced.
\<close>

definition wordChar :: "jschar \<Rightarrow> bool" where
  "wordChar c \<longleftrightarrow>
     (0x61 \<le> c \<and> c \<le> 0x7A) \<or> (0x41 \<le> c \<and> c \<le> 0x5A) \<or> (0x30 \<le> c \<and> c \<le> 0x39) \<or>
     (0xC0 \<le> c \<and> c \<le> 0xFF) \<or> (0x621 \<le> c \<and> c \<le> 0x64A) \<or> (0x660 \<le> c \<and> c \<le> 0x669) \<or>
     c = 0x2C \<or> c = 0x20"

definition replace_nonWordRe :: "jsstring \<Rightarrow> jsstring" where
  "replace_nonWordRe s =
     (let run = takeWhile (\<lambda>c. \<not> wordChar c) s
      in if run \<noteq> [] \<and> length run = length s then drop (length run) s else s)"

definition simplified :: "(jsstring \<Rightarrow> jsstring) \<Rightarrow> jsstring \<Rightarrow> jsstring" where
  "simplified lc v = dash # replace_nonWordRe (lc v) @ [dash]"

definition u_iterateGrams :: "(jsstring \<Rightarrow> jsstring) \<Rightarrow> jsstring \<Rightarrow> nat \<Rightarrow> jsstring list" where
  "u_iterateGrams lc v gramSize0 =
     (let gramSize = (if gramSize0 = 0 then 2 else gramSize0);
          s0 = simplified lc v;
          s = s0 @ replicate (gramSize - length s0) dash
      in map (\<lambda>i. take gramSize (drop i s)) [0 ..< length s - gramSize + 1])"

definition count_gram :: "(jsstring \<times> nat) list \<Rightarrow> jsstring \<Rightarrow> (jsstring \<times> nat) list" where
  "count_gram result g =
     (case map_of result g of
        Some n \<Rightarrow> AList.update g (n + 1) result
      | None \<Rightarrow> AList.update g 1 result)"

definition u_gramCounter :: "(jsstring \<Rightarrow> jsstring) \<Rightarrow> jsstring \<Rightarrow> nat \<Rightarrow> (jsstring \<times> nat) list" where
  "u_gramCounter lc v gramSize0 =
     (let gramSize = (if gramSize0 = 0 then 2 else gramSize0)
      in foldl count_gram [] (u_iterateGrams lc v gramSize))"

subsection \<open>Insertion\<close>

definition u_normalizeStr :: "(jsstring \<Rightarrow> jsstring) \<Rightarrow> jsstring \<Rightarrow> jsstring" where
  "u_normalizeStr lc s = lc s"

definition post_gram ::
  "nat \<Rightarrow> nat \<times> (jsstring \<rightharpoonup> (nat \<times> nat) list) \<Rightarrow> jsstring \<times> nat
     \<Rightarrow> nat \<times> (jsstring \<rightharpoonup> (nat \<times> nat) list)" where
  "post_gram index acc gc =
     (let sumOfSquareGramCounts = fst acc; md = snd acc; gram = fst gc; gramCount = snd gc
      in (sumOfSquareGramCounts + gramCount ^ 2,
          case md gram of
            Some ps \<Rightarrow> md(gram \<mapsto> ps @ [(index, gramCount)])
          | None \<Rightarrow> md(gram \<mapsto> [(index, gramCount)])))"

definition u_add :: "(jsstring \<Rightarrow> jsstring) \<Rightarrow> jsstring \<Rightarrow> nat \<Rightarrow> FuzzySearch \<Rightarrow> FuzzySearch" where
  "u_add lc v gramSize st =
     (let normalizedValue = u_normalizeStr lc v;
          its = (case items st gramSize of Some l \<Rightarrow> l | None \<Rightarrow> []);
          index = length its;
          gramCounts = u_gramCounter lc normalizedValue gramSize;
          acc = foldl (post_gram index) (0, matchDict st) gramCounts;
          vectorNormal = sqrt (real (fst acc))
      in st\<lparr>matchDict := snd acc,
            items := (items st)(gramSize \<mapsto> its @ [(vectorNormal, normalizedValue)]),
            exactSet := AList.update normalizedValue v (exactSet st)\<rparr>)"

definition add :: "(jsstring \<Rightarrow> jsstring) \<Rightarrow> jsstring \<Rightarrow> FuzzySearch \<Rightarrow> FuzzySearch" where
  "add lc v st =
     (if map_of (exactSet st) (u_normalizeStr lc v) \<noteq> None then st
      else foldl (\<lambda>s i. u_add lc v i s) st [gramSizeLower st ..< Suc (gramSizeUpper st)])"

definition empty_index :: "bool \<Rightarrow> nat \<Rightarrow> nat \<Rightarrow> FuzzySearch" where
  "empty_index ul lower upper =
     \<lparr>gramSizeLower = lower, gramSizeUpper = upper, useLevenshtein = ul,
      exactSet = [], matchDict = Map.empty,
      items = (\<lambda>i. if lower \<le> i \<and> i \<le> upper then Some [] else None)\<rparr>"

definition FuzzySet ::
  "(jsstring \<Rightarrow> jsstring) \<Rightarrow> jsstring list \<Rightarrow> bool option \<Rightarrow> nat option \<Rightarrow> nat option \<Rightarrow> FuzzySearch" where
  "FuzzySet lc arr useLev lower upper =
     foldl (\<lambda>st v. add lc v st)
       (empty_index (case useLev of None \<Rightarrow> True | Some b \<Rightarrow> b)
          (case lower of None \<Rightarrow> 2 | Some l \<Rightarrow> l) (case upper of None \<Rightarrow> 3 | Some u \<Rightarrow> u))
       arr"



subsection \<open>Query\<close>

definition bump_match :: "nat \<Rightarrow> (nat \<times> nat) list \<Rightarrow> nat \<times> nat \<Rightarrow> (nat \<times> nat) list" where
  "bump_match gramCount matches p =
     (let index = fst p; otherGramCount = snd p
      in case map_of matches index of
           Some old \<Rightarrow> AList.update index (old + gramCount * otherGramCount) matches
         | None \<Rightarrow> AList.update index (gramCount * otherGramCount) matches)"

definition match_gram ::
  "(jsstring \<rightharpoonup> (nat \<times> nat) list) \<Rightarrow> nat \<times> (nat \<times> nat) list \<Rightarrow> jsstring \<times> nat
     \<Rightarrow> nat \<times> (nat \<times> nat) list" where
  "match_gram md acc gc =
     (let sumOfSquareGramCounts = fst acc; matches = snd acc; gram = fst gc; gramCount = snd gc
      in (sumOfSquareGramCounts + gramCount ^ 2,
          case md gram of
            Some ps \<Rightarrow> foldl (bump_match gramCount) matches ps
          | None \<Rightarrow> matches))"

fun score_matches ::
  "real \<Rightarrow> (real \<times> jsstring) list option \<Rightarrow> (nat \<times> nat) list \<Rightarrow> error + (jsnum \<times> jsstring) list" where
  "score_matches vectorNormal its [] = Inr []"
| "score_matches vectorNormal its ((matchIndex, matchScore) # ms) =
     (case its of
        None \<Rightarrow> Inl TypeError
      | Some l \<Rightarrow>
          if matchIndex < length l
          then (case score_matches vectorNormal its ms of
                  Inl e \<Rightarrow> Inl e
                | Inr rs \<Rightarrow>
                    Inr ((js_div (real matchScore) (vectorNormal * fst (l ! matchIndex)),
                          snd (l ! matchIndex)) # rs))
          else Inl TypeError)"

fun rescore :: "jsstring \<Rightarrow> (jsnum \<times> jsstring) list \<Rightarrow> error + (jsnum \<times> jsstring) list" where
  "rescore normalizedValue [] = Inr []"
| "rescore normalizedValue (r # rs) =
     (case u_distance (Some (snd r)) (Some normalizedValue) of
        Inl e \<Rightarrow> Inl e
      | Inr d \<Rightarrow>
          (case rescore normalizedValue rs of
             Inl e \<Rightarrow> Inl e
           | Inr rs' \<Rightarrow> Inr ((d, snd r) # rs')))"

definition finalResults ::
  "FuzzySearch \<Rightarrow> jsnum \<Rightarrow> (jsnum \<times> jsstring) list \<Rightarrow> (jsnum \<times> jsstring option) list" where
  "finalResults st minMatchScore results =
     map (\<lambda>r. (fst r, map_of (exactSet st) (snd r)))
       (filter (\<lambda>r. js_ge (fst r) minMatchScore) results)"

text \<open>
  \<open>__get\<close> in three parts: the loop over the grams of the query (lines 76 to 89), which
  returns \<open>sumOfSquareGramCounts\<close> and \<open>matches\<close>; the cosine scores of the matches
  (lines 95 to 100), where reading \<open>items[matchIndex][0]\<close> of an absent record is a
  \<open>TypeError\<close>; and the rest.
\<close>

definition query_matches ::
  "(jsstring \<Rightarrow> jsstring) \<Rightarrow> FuzzySearch \<Rightarrow> jsstring \<Rightarrow> nat \<Rightarrow> nat \<times> (nat \<times> nat) list" where
  "query_matches lc st v gramSize =
     foldl (match_gram (matchDict st)) (0, [])
       (u_gramCounter lc (u_normalizeStr lc v) gramSize)"

definition cosine_results ::
  "(jsstring \<Rightarrow> jsstring) \<Rightarrow> FuzzySearch \<Rightarrow> jsstring \<Rightarrow> nat \<Rightarrow> error + (jsnum \<times> jsstring) list" where
  "cosine_results lc st v gramSize =
     (let acc = query_matches lc st v gramSize;
          vectorNormal = sqrt (real (fst acc))
      in score_matches vectorNormal (items st gramSize) (sort_key fst (snd acc)))"

definition uu_get ::
  "(jsstring \<Rightarrow> jsstring) \<Rightarrow> FuzzySearch \<Rightarrow> jsstring \<Rightarrow> nat \<Rightarrow> jsnum
     \<Rightarrow> error + (jsnum \<times> jsstring option) list option" where
  "uu_get lc st v gramSize minMatchScore =
     (let normalizedValue = u_normalizeStr lc v;
          matches = snd (query_matches lc st v gramSize)
      in if matches = [] then Inr None
         else
           (case cosine_results lc st v gramSize of
              Inl e \<Rightarrow> Inl e
            | Inr scored \<Rightarrow>
                (let results = sort_desc scored
                 in if useLevenshtein st
                    then (case rescore normalizedValue (take (min 50 (length results)) results) of
                            Inl e \<Rightarrow> Inl e
                          | Inr newResults \<Rightarrow>
                              Inr (Some (finalResults st minMatchScore (sort_desc newResults))))
                    else Inr (Some (finalResults st minMatchScore results)))))"

fun u_get_loop ::
  "(jsstring \<Rightarrow> jsstring) \<Rightarrow> FuzzySearch \<Rightarrow> jsstring \<Rightarrow> jsnum \<Rightarrow> nat list
     \<Rightarrow> error + (jsnum \<times> jsstring option) list option" where
  "u_get_loop lc st v minMatchScore [] = Inr None"
| "u_get_loop lc st v minMatchScore (gramSize # gs) =
     (case uu_get lc st v gramSize minMatchScore of
        Inl e \<Rightarrow> Inl e
      | Inr None \<Rightarrow> u_get_loop lc st v minMatchScore gs
      | Inr (Some results) \<Rightarrow>
          if 0 < length results then Inr (Some results)
          else u_get_loop lc st v minMatchScore gs)"

definition u_get ::
  "(jsstring \<Rightarrow> jsstring) \<Rightarrow> FuzzySearch \<Rightarrow> jsstring \<Rightarrow> jsnum
     \<Rightarrow> error + (jsnum \<times> jsstring option) list option" where
  "u_get lc st v minMatchScore =
     u_get_loop lc st v minMatchScore (rev [gramSizeLower st ..< Suc (gramSizeUpper st)])"

datatype 'a get_result = Null | Results "(jsnum \<times> jsstring option) list" | Default 'a

definition get ::
  "(jsstring \<Rightarrow> jsstring) \<Rightarrow> FuzzySearch \<Rightarrow> jsstring \<Rightarrow> 'a option \<Rightarrow> jsnum option
     \<Rightarrow> error + 'a get_result" where
  "get lc st v defaultValue minMatchScore0 =
     (let minMatchScore = (case minMatchScore0 of None \<Rightarrow> Num 0.33 | Some m \<Rightarrow> m)
      in case u_get lc st v minMatchScore of
           Inl e \<Rightarrow> Inl e
         | Inr None \<Rightarrow> (case defaultValue of Some d \<Rightarrow> Inr (Default d) | None \<Rightarrow> Inr Null)
         | Inr (Some results) \<Rightarrow> Inr (Results results))"

subsection \<open>Reachable indexes\<close>


subsection \<open>Counting results, and an index to evaluate on\<close>

definition example_index :: FuzzySearch where
  "example_index =
     FuzzySet toLowerCase_ascii [str ''abxxxxx'', str ''axb'', str ''ayb''] None None None"

definition result_count :: "error + (jsnum \<times> jsstring option) list option \<Rightarrow> nat" where
  "result_count r = (case r of Inr (Some rs) \<Rightarrow> length rs | _ \<Rightarrow> 0)"


definition get_count :: "error + 'a get_result \<Rightarrow> nat" where
  "get_count r = (case r of Inr (Results rs) \<Rightarrow> length rs | _ \<Rightarrow> 0)"

subsection \<open>What a reachable index holds\<close>






definition sizes :: "FuzzySearch \<Rightarrow> nat list" where
  "sizes st = [gramSizeLower st ..< Suc (gramSizeUpper st)]"





definition weight :: "(nat \<times> nat) list \<Rightarrow> nat \<Rightarrow> nat" where
  "weight ps j = sum_list (map snd (filter (\<lambda>p. fst p = j) ps))"

subsection \<open>Edit distance\<close>

text \<open>
  \<open>edit1\<close> is one insertion, deletion or substitution of a single character at any
  position, so that \<open>(edit1 ^^ n) a b\<close> says that \<open>n\<close> such edits transform \<open>a\<close> into \<open>b\<close>.
  \<open>aligned n a b\<close> is an edit script that works through both strings from left to
  right, at the cost \<open>n\<close>; \<open>lev\<close> is the textbook recursion for the Levenshtein distance,
  and \<open>lev_table a b i j\<close> is the cell of the dynamic programming table for the first
  \<open>j\<close> characters of \<open>a\<close> and the first \<open>i\<close> characters of \<open>b\<close>.
\<close>

inductive edit1 :: "'a list \<Rightarrow> 'a list \<Rightarrow> bool" where
  insertion: "edit1 (xs @ ys) (xs @ c # ys)"
| deletion: "edit1 (xs @ c # ys) (xs @ ys)"
| substitution: "edit1 (xs @ c # ys) (xs @ d # ys)"

inductive aligned :: "nat \<Rightarrow> 'a list \<Rightarrow> 'a list \<Rightarrow> bool" where
  aligned_Nil: "aligned 0 [] []"
| aligned_keep: "aligned n xs ys \<Longrightarrow> aligned n (x # xs) (x # ys)"
| aligned_sub: "aligned n xs ys \<Longrightarrow> aligned (Suc n) (x # xs) (y # ys)"
| aligned_ins: "aligned n xs ys \<Longrightarrow> aligned (Suc n) xs (y # ys)"
| aligned_del: "aligned n xs ys \<Longrightarrow> aligned (Suc n) (x # xs) ys"

fun lev :: "'a list \<Rightarrow> 'a list \<Rightarrow> nat" where
  "lev [] ys = length ys"
| "lev (x # xs) [] = Suc (length xs)"
| "lev (x # xs) (y # ys) =
     min (min (lev xs (y # ys) + 1) (lev (x # xs) ys + 1))
         (lev xs ys + (if x = y then 0 else 1))"

definition lev_table :: "'a list \<Rightarrow> 'a list \<Rightarrow> nat \<Rightarrow> nat \<Rightarrow> nat" where
  "lev_table a b i j = lev (rev (take j a)) (rev (take i b))"

subsection \<open>An index of strings without word characters\<close>




section \<open>Properties\<close>

subsection \<open>Grams and gram counts\<close>

lemma simplified_length: "2 \<le> length (simplified lc v)"
  by (simp add: simplified_def)




lemma distinct_count_gram: "distinct (map fst r) \<Longrightarrow> distinct (map fst (count_gram r g))"
  by (simp add: count_gram_def distinct_update split: option.splits)

lemma distinct_foldl_count_gram:
  "distinct (map fst r) \<Longrightarrow> distinct (map fst (foldl count_gram r gs))"
  by (induction gs arbitrary: r) (simp_all add: distinct_count_gram)


lemma distinct_u_gramCounter: "distinct (map fst (u_gramCounter lc v g))"
  by (simp add: u_gramCounter_def distinct_foldl_count_gram)





lemma post_gram_step:
  "post_gram idx (s, md) (g, c) =
     (s + c\<^sup>2, md(g \<mapsto> (case md g of None \<Rightarrow> [] | Some ps \<Rightarrow> ps) @ [(idx, c)]))"
  by (simp add: post_gram_def split: option.splits)

lemma foldl_post_gram_fst:
  "fst (foldl (post_gram idx) (s, md) gc) = s + sum_list (map (\<lambda>p. (snd p)\<^sup>2) gc)"
proof (induction gc arbitrary: s md)
  case Nil
  then show ?case by simp
next
  case (Cons p gc)
  obtain g c where p: "p = (g, c)" by (cases p)
  show ?case by (simp add: p post_gram_step Cons.IH)
qed

lemma foldl_post_gram_snd:
  "distinct (map fst gc) \<Longrightarrow>
   snd (foldl (post_gram idx) (s, md) gc) k =
     (case map_of gc k of
        None \<Rightarrow> md k
      | Some c \<Rightarrow> Some ((case md k of None \<Rightarrow> [] | Some ps \<Rightarrow> ps) @ [(idx, c)]))"
proof (induction gc arbitrary: s md)
  case Nil
  then show ?case by simp
next
  case (Cons p gc)
  obtain g c where p: "p = (g, c)" by (cases p)
  from Cons.prems p have notin: "map_of gc g = None" and d: "distinct (map fst gc)"
    by (auto simp: map_of_eq_None_iff)
  show ?case
    using notin by (simp add: p post_gram_step Cons.IH [OF d] split: option.splits)
qed


subsection \<open>What one insertion step changes\<close>

lemma u_add_config [simp]:
  "gramSizeLower (u_add lc v g st) = gramSizeLower st"
  "gramSizeUpper (u_add lc v g st) = gramSizeUpper st"
  "useLevenshtein (u_add lc v g st) = useLevenshtein st"
  by (simp_all add: u_add_def Let_def)

lemma u_add_exactSet:
  "exactSet (u_add lc v g st) = AList.update (lc v) v (exactSet st)"
  by (simp add: u_add_def Let_def u_normalizeStr_def)

lemma u_add_items:
  "items (u_add lc v g st) g' =
     (if g' = g
      then Some ((case items st g of Some l \<Rightarrow> l | None \<Rightarrow> []) @
                 [(sqrt (real (sum_list (map (\<lambda>p. (snd p)\<^sup>2) (u_gramCounter lc (lc v) g)))), lc v)])
      else items st g')"
  by (simp add: u_add_def Let_def u_normalizeStr_def foldl_post_gram_fst)

lemma u_add_matchDict:
  "matchDict (u_add lc v g st) k =
     (case map_of (u_gramCounter lc (lc v) g) k of
        None \<Rightarrow> matchDict st k
      | Some c \<Rightarrow>
          Some ((case matchDict st k of None \<Rightarrow> [] | Some ps \<Rightarrow> ps) @
                [(length (case items st g of Some l \<Rightarrow> l | None \<Rightarrow> []), c)]))"
  by (simp add: u_add_def Let_def u_normalizeStr_def foldl_post_gram_snd distinct_u_gramCounter)

lemma foldl_u_add_config [simp]:
  "gramSizeLower (foldl (\<lambda>s i. u_add lc v i s) st gs) = gramSizeLower st"
  "gramSizeUpper (foldl (\<lambda>s i. u_add lc v i s) st gs) = gramSizeUpper st"
  "useLevenshtein (foldl (\<lambda>s i. u_add lc v i s) st gs) = useLevenshtein st"
  by (induction gs arbitrary: st) simp_all

lemma add_config [simp]:
  "gramSizeLower (add lc v st) = gramSizeLower st"
  "gramSizeUpper (add lc v st) = gramSizeUpper st"
  "useLevenshtein (add lc v st) = useLevenshtein st"
  by (simp_all add: add_def)

subsection \<open>The query loop and the insertion loop\<close>



lemma u_get_loop_first:
  "\<forall>g\<in>set gs1. uu_get lc st v g m = Inr None \<or> uu_get lc st v g m = Inr (Some []) \<Longrightarrow>
   uu_get lc st v g m = Inr (Some rs) \<Longrightarrow> rs \<noteq> [] \<Longrightarrow>
   u_get_loop lc st v m (gs1 @ g # gs2) = Inr (Some rs)"
  by (induction gs1) auto

lemma uu_get_normalized:
  "lc (lc q) = lc q \<Longrightarrow> uu_get lc st (lc q) g m = uu_get lc st q g m"
  by (simp add: uu_get_def query_matches_def cosine_results_def u_normalizeStr_def)

lemma u_get_loop_normalized:
  "lc (lc q) = lc q \<Longrightarrow> u_get_loop lc st (lc q) m gs = u_get_loop lc st q m gs"
  by (induction gs) (auto simp: uu_get_normalized split: sum.splits option.splits)






subsection \<open>The empty catalog\<close>






subsection \<open>Evaluation on the example index\<close>

text \<open>
  The example index is built from \<open>abxxxxx\<close>, \<open>axb\<close> and \<open>ayb\<close> with the default
  configuration; the query is \<open>ab\<close>. It shares the 3-gram \<open>-ab\<close> with the first entry
  only, and 2-grams with all three.
\<close>

lemmas eval_gram = u_gramCounter_def count_gram_def u_iterateGrams_def simplified_def
  replace_nonWordRe_def toLowerCase_ascii_def str_def dash_def wordChar_def upt_rec Let_def

lemmas eval_state = FuzzySet_def empty_index_def add_def u_normalizeStr_def u_add_exactSet
  u_add_items u_add_matchDict

lemmas eval_get = uu_get_def query_matches_def cosine_results_def match_gram_def bump_match_def
  finalResults_def sort_desc_def u_distance_def levenshtein_def lev_outer_def lev_inner_def
  js_div_def

lemma example_config:
  "gramSizeLower example_index = 2" "gramSizeUpper example_index = 3"
  "useLevenshtein example_index"
  by (simp_all add: example_index_def FuzzySet_def empty_index_def)

lemma example_exactSet:
  "exactSet example_index =
     [([0x61, 0x62, 0x78, 0x78, 0x78, 0x78, 0x78], [0x61, 0x62, 0x78, 0x78, 0x78, 0x78, 0x78]),
      ([0x61, 0x78, 0x62], [0x61, 0x78, 0x62]), ([0x61, 0x79, 0x62], [0x61, 0x79, 0x62])]"
  by (simp add: example_index_def eval_state eval_gram)

lemma example_items:
  "items example_index 2 =
     Some [(sqrt 20, [0x61, 0x62, 0x78, 0x78, 0x78, 0x78, 0x78]), (sqrt 4, [0x61, 0x78, 0x62]),
           (sqrt 4, [0x61, 0x79, 0x62])]"
  "items example_index 3 =
     Some [(sqrt 13, [0x61, 0x62, 0x78, 0x78, 0x78, 0x78, 0x78]), (sqrt 3, [0x61, 0x78, 0x62]),
           (sqrt 3, [0x61, 0x79, 0x62])]"
  by (simp_all add: example_index_def eval_state eval_gram)

lemma example_matchDict:
  "matchDict example_index [0x2D, 0x61] = Some [(0, 1), (1, 1), (2, 1)]"
  "matchDict example_index [0x61, 0x62] = Some [(0, 1)]"
  "matchDict example_index [0x62, 0x2D] = Some [(1, 1), (2, 1)]"
  "matchDict example_index [0x2D, 0x61, 0x62] = Some [(0, 1)]"
  "matchDict example_index [0x61, 0x62, 0x2D] = None"
  by (simp_all add: example_index_def eval_state eval_gram)

lemmas example_facts = example_config example_exactSet example_items example_matchDict

lemma example_uu_get_3:
  "uu_get toLowerCase_ascii example_index (str ''ab'') 3 (Num 0.33) = Inr (Some [])"
  "uu_get toLowerCase_ascii example_index (str ''ab'') 3 (Num 0.25) =
     Inr (Some [(Num (2 / 7), Some (str ''abxxxxx''))])"
  by (simp_all add: eval_get eval_gram u_normalizeStr_def example_facts)

lemma example_uu_get_2:
  "uu_get toLowerCase_ascii example_index (str ''ab'') 2 (Num 0.33) =
     Inr (Some [(Num (2 / 3), Some (str ''axb'')), (Num (2 / 3), Some (str ''ayb''))])"
  by (simp add: eval_get eval_gram u_normalizeStr_def example_facts)


lemma example_matches_3:
  "snd (query_matches toLowerCase_ascii example_index (str ''ab'') 3) = [(0, 1)]"
  by (simp add: eval_get eval_gram u_normalizeStr_def example_facts)

subsection \<open>The anchored expression, the threshold and the loop over gram sizes\<close>

lemma replace_nonWordRe_cases:
  "replace_nonWordRe s = (if \<exists>c \<in> set s. wordChar c then s else [])"
proof (cases "\<exists>c \<in> set s. wordChar c")
  case True
  then have "takeWhile (\<lambda>c. \<not> wordChar c) s \<noteq> s"
    by (metis (mono_tags, lifting) takeWhile_eq_all_conv)
  then have "length (takeWhile (\<lambda>c. \<not> wordChar c) s) \<noteq> length s"
    by (metis takeWhile_eq_take take_all_iff le_refl)
  with True show ?thesis by (simp add: replace_nonWordRe_def Let_def)
next
  case False
  then have tw: "takeWhile (\<lambda>c. \<not> wordChar c) s = s"
    by (simp add: takeWhile_eq_all_conv)
  show ?thesis unfolding replace_nonWordRe_def Let_def tw using False by auto
qed

lemma js_ge_mono: "m1 \<le> m2 \<Longrightarrow> js_ge x (Num m2) \<Longrightarrow> js_ge x (Num m1)"
  by (cases x) simp_all

lemma finalResults_mono:
  "m1 \<le> m2 \<Longrightarrow>
   length (finalResults st (Num m2) rs) \<le> length (finalResults st (Num m1) rs)"
proof (induction rs)
  case Nil
  then show ?case by (simp add: finalResults_def)
next
  case (Cons r rs)
  then show ?case using js_ge_mono [of m1 m2 "fst r"]
    by (auto simp: finalResults_def)
qed

lemma uu_get_mono:
  assumes "m1 \<le> m2"
  shows "result_count (uu_get lc st q g (Num m2)) \<le> result_count (uu_get lc st q g (Num m1))"
  using finalResults_mono [OF assms]
  by (simp add: uu_get_def result_count_def Let_def split: sum.splits)

lemma uu_get_none_iff:
  "uu_get lc st q g m = Inr None \<longleftrightarrow> snd (query_matches lc st q g) = []"
  by (simp add: uu_get_def Let_def split: sum.splits)

lemma u_get_loop_none_iff:
  "u_get_loop lc st v m gs = Inr None \<longleftrightarrow>
   (\<forall>g\<in>set gs. uu_get lc st v g m = Inr None \<or> uu_get lc st v g m = Inr (Some []))"
  by (induction gs) (auto split: sum.splits option.splits)

lemma upt_split_at:
  "lo \<le> g \<Longrightarrow> g \<le> up \<Longrightarrow> [lo ..< Suc up] = [lo ..< g] @ g # [Suc g ..< Suc up]"
  by (metis le_imp_less_or_eq less_Suc_eq_le upt_conv_Cons upt_add_eq_append le_Suc_ex le_SucI)

lemma u_get_first_nonempty:
  assumes "gramSizeLower st \<le> g" "g \<le> gramSizeUpper st"
    and "uu_get lc st q g m = Inr (Some rs)" "rs \<noteq> []"
    and "\<forall>g'. g < g' \<and> g' \<le> gramSizeUpper st \<longrightarrow>
           uu_get lc st q g' m = Inr None \<or> uu_get lc st q g' m = Inr (Some [])"
  shows "u_get lc st q m = Inr (Some rs)"
proof -
  have "rev [gramSizeLower st ..< Suc (gramSizeUpper st)] =
        rev [Suc g ..< Suc (gramSizeUpper st)] @ g # rev [gramSizeLower st ..< g]"
    using upt_split_at [OF assms(1,2)] by simp
  moreover have "\<forall>g' \<in> set (rev [Suc g ..< Suc (gramSizeUpper st)]).
      uu_get lc st q g' m = Inr None \<or> uu_get lc st q g' m = Inr (Some [])"
  proof
    fix g' assume "g' \<in> set (rev [Suc g ..< Suc (gramSizeUpper st)])"
    then have "g < g' \<and> g' \<le> gramSizeUpper st" by auto
    with assms(5) show "uu_get lc st q g' m = Inr None \<or> uu_get lc st q g' m = Inr (Some [])"
      by blast
  qed
  ultimately show ?thesis
    unfolding u_get_def using u_get_loop_first [OF _ assms(3,4)] by metis
qed

lemma u_get_none_iff:
  "u_get lc st q m = Inr None \<longleftrightarrow>
   (\<forall>g'. gramSizeLower st \<le> g' \<and> g' \<le> gramSizeUpper st \<longrightarrow>
      uu_get lc st q g' m = Inr None \<or> uu_get lc st q g' m = Inr (Some []))"
  unfolding u_get_def u_get_loop_none_iff by auto

lemma get_count_single:
  assumes "gramSizeLower st = gramSizeUpper st"
  shows "get_count (get lc st q dv (Some m)) = result_count (uu_get lc st q (gramSizeUpper st) m)"
proof -
  have "rev [gramSizeLower st ..< Suc (gramSizeUpper st)] = [gramSizeUpper st]"
    using assms by simp
  then show ?thesis
    by (simp add: get_def u_get_def get_count_def result_count_def
        split: sum.splits option.splits)
qed

subsection \<open>Reachable indexes are well formed\<close>






lemma sizes_add [simp]: "sizes (add lc v st) = sizes st"
  by (simp add: sizes_def)





subsection \<open>The loop over the grams of a query\<close>












subsection \<open>Norms, indices and the cosine scores on a well-formed index\<close>
















subsection \<open>The Levenshtein distance is the least number of single edits\<close>

lemma lev_Nil2 [simp]: "lev xs [] = length xs"
  by (cases xs) simp_all

lemma edit1_Nil: "edit1 [] c \<Longrightarrow> \<exists>d. c = [d]"
  by (cases rule: edit1.cases) auto

lemma edit1_Cons_cases:
  assumes "edit1 (y # ys) c"
  shows "c = ys \<or> (\<exists>d. c = d # ys) \<or> (\<exists>d. c = d # y # ys) \<or> (\<exists>ys'. c = y # ys' \<and> edit1 ys ys')"
  using assms
proof (cases rule: edit1.cases)
  case (insertion xs zs d)
  then show ?thesis
    by (cases xs) (auto intro: edit1.insertion)
next
  case (deletion xs d zs)
  then show ?thesis
    by (cases xs) (auto intro: edit1.deletion)
next
  case (substitution xs d zs e)
  then show ?thesis
    by (cases xs) (auto intro: edit1.substitution)
qed

lemma edit1_head:
  "edit1 xs (c # xs)" "edit1 (c # xs) xs" "edit1 (c # xs) (d # xs)"
  using edit1.insertion [of "[]" xs c] edit1.deletion [of "[]" c xs]
    edit1.substitution [of "[]" c xs d]
  by simp_all

lemma edit1_Cons: "edit1 xs ys \<Longrightarrow> edit1 (c # xs) (c # ys)"
proof (induction rule: edit1.induct)
  case (insertion xs ys d)
  show ?case using edit1.insertion [of "c # xs" ys d] by simp
next
  case (deletion xs d ys)
  show ?case using edit1.deletion [of "c # xs" d ys] by simp
next
  case (substitution xs d ys e)
  show ?case using edit1.substitution [of "c # xs" d ys e] by simp
qed

lemma edit1_rev: "edit1 xs ys \<Longrightarrow> edit1 (rev xs) (rev ys)"
proof (induction rule: edit1.induct)
  case (insertion xs ys d)
  show ?case using edit1.insertion [of "rev ys" "rev xs" d] by simp
next
  case (deletion xs d ys)
  show ?case using edit1.deletion [of "rev ys" d "rev xs"] by simp
next
  case (substitution xs d ys e)
  show ?case using edit1.substitution [of "rev ys" d "rev xs" e] by simp
qed

lemma aligned_refl: "aligned 0 xs xs"
  by (induction xs) (auto intro: aligned.intros)

lemma aligned_lev: "aligned (lev xs ys) xs ys"
proof (induction xs ys rule: lev.induct)
  case (1 ys)
  show ?case by (induction ys) (auto intro: aligned.intros)
next
  case (2 x xs)
  have "aligned (length zs) zs []" for zs :: "'a list"
    by (induction zs) (auto intro: aligned.intros)
  from this [of "x # xs"] show ?case by simp
next
  case (3 x xs y ys)
  let ?a = "lev xs (y # ys) + 1" and ?b = "lev (x # xs) ys + 1"
    and ?c = "lev xs ys + (if x = y then 0 else 1)"
  have a: "aligned ?a (x # xs) (y # ys)"
    using aligned_del [OF "3.IH"(1)] by simp
  have b: "aligned ?b (x # xs) (y # ys)"
    using aligned_ins [OF "3.IH"(2)] by simp
  have c: "aligned ?c (x # xs) (y # ys)"
    using aligned_keep [OF "3.IH"(3), of x] aligned_sub [OF "3.IH"(3), of x y]
    by (cases "x = y") simp_all
  show ?case
    using a b c by (simp add: min_def)
qed

lemma lev_le_aligned: "aligned n xs ys \<Longrightarrow> lev xs ys \<le> n"
proof (induction rule: aligned.induct)
  case aligned_Nil
  then show ?case by simp
next
  case (aligned_keep n xs ys x)
  then show ?case by (simp add: min.coboundedI2)
next
  case (aligned_sub n xs ys x y)
  then show ?case by (auto simp: min_def)
next
  case (aligned_ins n xs ys y)
  then show ?case by (cases xs) (auto simp: min_def)
next
  case (aligned_del n xs ys x)
  then show ?case by (cases ys) (auto simp: min_def)
qed

lemma aligned_edit1:
  "aligned n a b \<Longrightarrow> edit1 b c \<Longrightarrow> \<exists>m \<le> Suc n. aligned m a c"
proof (induction arbitrary: c rule: aligned.induct)
  case aligned_Nil
  then obtain d where "c = [d]" using edit1_Nil by blast
  then show ?case using aligned_ins [OF aligned.aligned_Nil, of d] by (meson le_SucI le_refl Suc_le_mono)
next
  case (aligned_keep n xs ys x)
  from edit1_Cons_cases [OF aligned_keep.prems]
  consider "c = ys" | d where "c = d # ys" | d where "c = d # x # ys"
    | ys' where "c = x # ys'" "edit1 ys ys'"
    by blast
  then show ?case
  proof cases
    case 1
    then show ?thesis using aligned_del [OF aligned_keep.hyps, of x] by (meson le_SucI le_refl Suc_le_mono)
  next
    case 2
    then show ?thesis using aligned_sub [OF aligned_keep.hyps, of x d] by (meson le_SucI le_refl Suc_le_mono)
  next
    case 3
    then show ?thesis
      using aligned_ins [OF aligned.aligned_keep [OF aligned_keep.hyps, of x], of d] by (meson le_SucI le_refl Suc_le_mono)
  next
    case 4
    then obtain m where "m \<le> Suc n" "aligned m xs ys'"
      using aligned_keep.IH by blast
    then show ?thesis using 4 aligned.aligned_keep [of m xs ys' x] by (meson le_SucI le_refl Suc_le_mono)
  qed
next
  case (aligned_sub n xs ys x y)
  from edit1_Cons_cases [OF aligned_sub.prems]
  consider "c = ys" | d where "c = d # ys" | d where "c = d # y # ys"
    | ys' where "c = y # ys'" "edit1 ys ys'"
    by blast
  then show ?case
  proof cases
    case 1
    then show ?thesis using aligned_del [OF aligned_sub.hyps, of x] by (meson le_SucI le_refl)
  next
    case 2
    then show ?thesis using aligned.aligned_sub [OF aligned_sub.hyps, of x d] by (meson le_SucI le_refl Suc_le_mono)
  next
    case 3
    then show ?thesis
      using aligned_ins [OF aligned.aligned_sub [OF aligned_sub.hyps, of x y], of d] by (meson le_SucI le_refl Suc_le_mono)
  next
    case 4
    then obtain m where "m \<le> Suc n" "aligned m xs ys'"
      using aligned_sub.IH by blast
    then show ?thesis using 4 aligned.aligned_sub [of m xs ys' x y] by (meson le_SucI le_refl Suc_le_mono)
  qed
next
  case (aligned_ins n xs ys y)
  from edit1_Cons_cases [OF aligned_ins.prems]
  consider "c = ys" | d where "c = d # ys" | d where "c = d # y # ys"
    | ys' where "c = y # ys'" "edit1 ys ys'"
    by blast
  then show ?case
  proof cases
    case 1
    then show ?thesis using aligned_ins.hyps by (meson le_SucI le_refl)
  next
    case 2
    then show ?thesis using aligned.aligned_ins [OF aligned_ins.hyps, of d] by (meson le_SucI le_refl Suc_le_mono)
  next
    case 3
    then show ?thesis
      using aligned.aligned_ins [OF aligned.aligned_ins [OF aligned_ins.hyps, of y], of d] by (meson le_SucI le_refl Suc_le_mono)
  next
    case 4
    then obtain m where "m \<le> Suc n" "aligned m xs ys'"
      using aligned_ins.IH by blast
    then show ?thesis using 4 aligned.aligned_ins [of m xs ys' y] by (meson le_SucI le_refl Suc_le_mono)
  qed
next
  case (aligned_del n xs ys x)
  then obtain m where "m \<le> Suc n" "aligned m xs c"
    by blast
  then show ?case using aligned.aligned_del [of m xs c x] by (meson le_SucI le_refl Suc_le_mono)
qed

lemma aligned_sym: "aligned n xs ys \<Longrightarrow> aligned n ys xs"
  by (induction rule: aligned.induct) (auto intro: aligned.intros)

lemma lev_sym: "lev xs ys = lev ys xs"
  by (metis aligned_lev aligned_sym lev_le_aligned le_antisym)

lemma relpowp_aligned: "(edit1 ^^ k) a b \<Longrightarrow> \<exists>m \<le> k. aligned m a b"
proof (induction k arbitrary: b)
  case 0
  then show ?case using aligned_refl by auto
next
  case (Suc k)
  then obtain c where "(edit1 ^^ k) a c" "edit1 c b" by auto
  then obtain m where "m \<le> k" "aligned m a c" using Suc.IH by blast
  then obtain m' where "m' \<le> Suc m" "aligned m' a b"
    using aligned_edit1 [OF _ \<open>edit1 c b\<close>] by blast
  then show ?case using \<open>m \<le> k\<close> by (intro exI [of _ m']) simp
qed

lemma relpowp_Cons: "(edit1 ^^ k) xs ys \<Longrightarrow> (edit1 ^^ k) (c # xs) (c # ys)"
proof (induction k arbitrary: ys)
  case 0
  then show ?case by simp
next
  case (Suc k)
  then obtain zs where "(edit1 ^^ k) xs zs" "edit1 zs ys" by auto
  then show ?case using Suc.IH edit1_Cons by (auto intro!: relcomppI)
qed

lemma aligned_relpowp: "aligned n xs ys \<Longrightarrow> (edit1 ^^ n) xs ys"
proof (induction rule: aligned.induct)
  case aligned_Nil
  then show ?case by simp
next
  case (aligned_keep n xs ys x)
  show ?case using aligned_keep.IH by (rule relpowp_Cons)
next
  case (aligned_sub n xs ys x y)
  have "(edit1 ^^ n) (x # xs) (x # ys)" using aligned_sub.IH by (rule relpowp_Cons)
  then show ?case using edit1_head(3) [of x ys y] by (auto intro!: relcomppI)
next
  case (aligned_ins n xs ys y)
  show ?case using aligned_ins.IH edit1_head(1) [of ys y] by (auto intro!: relcomppI)
next
  case (aligned_del n xs ys x)
  have "(edit1 ^^ n) (x # xs) (x # ys)" using aligned_del.IH by (rule relpowp_Cons)
  then show ?case using edit1_head(2) [of x ys] by (auto intro!: relcomppI)
qed

lemma relpowp_rev: "(edit1 ^^ k) xs ys \<Longrightarrow> (edit1 ^^ k) (rev xs) (rev ys)"
proof (induction k arbitrary: ys)
  case 0
  then show ?case by simp
next
  case (Suc k)
  then obtain zs where "(edit1 ^^ k) xs zs" "edit1 zs ys" by auto
  then show ?case using Suc.IH edit1_rev by (auto intro!: relcomppI)
qed

lemma lev_minimal_edits:
  "(edit1 ^^ lev (rev a) (rev b)) a b \<and> (\<forall>n. (edit1 ^^ n) a b \<longrightarrow> lev (rev a) (rev b) \<le> n)"
proof (intro conjI allI impI)
  show "(edit1 ^^ lev (rev a) (rev b)) a b"
    using relpowp_rev [OF aligned_relpowp [OF aligned_lev [of "rev a" "rev b"]]] by simp
next
  fix n assume "(edit1 ^^ n) a b"
  then have "(edit1 ^^ n) (rev a) (rev b)" by (rule relpowp_rev)
  then obtain m where "m \<le> n" "aligned m (rev a) (rev b)"
    using relpowp_aligned by blast
  then show "lev (rev a) (rev b) \<le> n"
    using lev_le_aligned [of m "rev a" "rev b"] by simp
qed

lemma lev_drop_head: "lev xs ys \<le> lev xs (y # ys) + 1"
proof -
  obtain m where "m \<le> Suc (lev xs (y # ys))" "aligned m xs ys"
    using aligned_edit1 [OF aligned_lev [of xs "y # ys"] edit1_head(2) [of y ys]] by blast
  then show ?thesis using lev_le_aligned [of m xs ys] by simp
qed

lemma lev_same_head: "lev (x # xs) (x # ys) = lev xs ys"
proof -
  have "lev xs ys \<le> lev xs (x # ys) + 1" by (rule lev_drop_head)
  moreover have "lev xs ys \<le> lev (x # xs) ys + 1"
    using lev_drop_head [of ys xs x] by (simp add: lev_sym)
  ultimately show ?thesis by (simp add: min_def)
qed


subsection \<open>The rolling row of levenshtein\<close>

lemma lev_table_0: "j \<le> length a \<Longrightarrow> lev_table a b 0 j = j"
  by (simp add: lev_table_def)

lemma lev_table_col0: "i \<le> length b \<Longrightarrow> lev_table a b i 0 = i"
  by (simp add: lev_table_def)

lemma lev_table_Suc:
  assumes "i < length b" "j < length a"
  shows "lev_table a b (Suc i) (Suc j) =
     (if a ! j = b ! i then lev_table a b i j
      else min (lev_table a b i (Suc j)) (min (lev_table a b (Suc i) j) (lev_table a b i j)) + 1)"
proof (cases "a ! j = b ! i")
  case True
  then show ?thesis
    using assms by (simp add: lev_table_def take_Suc_conv_app_nth lev_same_head del: lev.simps(3))
next
  case False
  then show ?thesis
    using assms by (simp add: lev_table_def take_Suc_conv_app_nth min_def)
qed

lemma lev_inner_step:
  "lev_inner str1 c2 (prev, cur) j =
     (cur ! j, cur[j := (if str1 ! (j - 1) = c2 then prev
                         else min (cur ! j) (min (cur ! (j - 1)) prev) + 1)])"
  by (simp add: lev_inner_def)

lemma lev_inner_fold:
  assumes i: "i < length b" and len: "length cur0 = Suc (length a)"
    and c0: "cur0 ! 0 = Suc i"
    and ck: "\<forall>k. 0 < k \<and> k \<le> length a \<longrightarrow> cur0 ! k = lev_table a b i k"
  shows "j \<le> length a \<Longrightarrow>
     fst (foldl (lev_inner a (b ! i)) (lev_table a b i 0, cur0) [1 ..< Suc j]) = lev_table a b i j \<and>
     length (snd (foldl (lev_inner a (b ! i)) (lev_table a b i 0, cur0) [1 ..< Suc j])) =
       Suc (length a) \<and>
     (\<forall>k \<le> length a.
        snd (foldl (lev_inner a (b ! i)) (lev_table a b i 0, cur0) [1 ..< Suc j]) ! k =
          (if k \<le> j then lev_table a b (Suc i) k else lev_table a b i k))"
proof (induction j)
  case 0
  have "lev_table a b (Suc i) 0 = Suc i"
    using i by (simp add: lev_table_col0)
  then show ?case
    using len c0 ck by auto
next
  case (Suc j)
  let ?r = "foldl (lev_inner a (b ! i)) (lev_table a b i 0, cur0) [1 ..< Suc j]"
  obtain prev cur where r: "?r = (prev, cur)" by (cases ?r)
  from Suc have j: "j < length a" and jl: "j \<le> length a" by simp_all
  from Suc.IH [OF jl] r have prev: "prev = lev_table a b i j"
    and lc: "length cur = Suc (length a)"
    and nth: "\<And>k. k \<le> length a \<Longrightarrow>
        cur ! k = (if k \<le> j then lev_table a b (Suc i) k else lev_table a b i k)"
    by simp_all
  have cj: "cur ! j = lev_table a b (Suc i) j" and csj: "cur ! Suc j = lev_table a b i (Suc j)"
    using nth [of j] nth [of "Suc j"] j by simp_all
  have step: "foldl (lev_inner a (b ! i)) (lev_table a b i 0, cur0) [1 ..< Suc (Suc j)] =
      lev_inner a (b ! i) (prev, cur) (Suc j)"
    using r by simp
  have val: "(if a ! (Suc j - 1) = b ! i then prev
              else min (cur ! Suc j) (min (cur ! (Suc j - 1)) prev) + 1) =
             lev_table a b (Suc i) (Suc j)"
    using lev_table_Suc [OF i j] by (simp add: prev cj csj)
  show ?case
    unfolding step lev_inner_step val
    using lc nth j by (auto simp: csj nth_list_update)
qed

lemma lev_outer_row:
  assumes i: "i < length b" and len: "length cur = Suc (length a)"
    and row: "\<forall>k \<le> length a. cur ! k = lev_table a b i k"
  shows "length (lev_outer a b cur (Suc i)) = Suc (length a) \<and>
         (\<forall>k \<le> length a. lev_outer a b cur (Suc i) ! k = lev_table a b (Suc i) k)"
proof -
  have c0: "cur ! 0 = lev_table a b i 0" using row by simp
  have "fst (foldl (lev_inner a (b ! i)) (lev_table a b i 0, cur[0 := Suc i]) [1 ..< Suc (length a)]) =
          lev_table a b i (length a) \<and>
        length (snd (foldl (lev_inner a (b ! i)) (lev_table a b i 0, cur[0 := Suc i])
                        [1 ..< Suc (length a)])) = Suc (length a) \<and>
        (\<forall>k \<le> length a.
           snd (foldl (lev_inner a (b ! i)) (lev_table a b i 0, cur[0 := Suc i])
                  [1 ..< Suc (length a)]) ! k =
             (if k \<le> length a then lev_table a b (Suc i) k else lev_table a b i k))"
    by (rule lev_inner_fold [OF i]) (use len row in auto)
  then show ?thesis
    by (simp add: lev_outer_def c0)
qed

lemma lev_outer_fold:
  "i \<le> length b \<Longrightarrow>
   length (foldl (lev_outer a b) [0 ..< Suc (length a)] [1 ..< Suc i]) = Suc (length a) \<and>
   (\<forall>k \<le> length a.
      foldl (lev_outer a b) [0 ..< Suc (length a)] [1 ..< Suc i] ! k = lev_table a b i k)"
proof (induction i)
  case 0
  have "[0 ..< Suc (length a)] ! k = lev_table a b 0 k" if "k \<le> length a" for k
    using that nth_upt [of 0 k "Suc (length a)"] by (simp add: lev_table_0 del: upt_Suc)
  then show ?case by (simp del: upt_Suc)
next
  case (Suc i)
  then have i: "i < length b" and il: "i \<le> length b" by simp_all
  have "foldl (lev_outer a b) [0 ..< Suc (length a)] [1 ..< Suc (Suc i)] =
        lev_outer a b (foldl (lev_outer a b) [0 ..< Suc (length a)] [1 ..< Suc i]) (Suc i)"
    by simp
  then show ?case
    using lev_outer_row [OF i conjunct1 [OF Suc.IH [OF il]] conjunct2 [OF Suc.IH [OF il]]]
    by simp
qed

lemma levenshtein_lev: "levenshtein a b = lev (rev a) (rev b)"
proof -
  have "levenshtein a b = lev_table a b (length b) (length a)"
    using lev_outer_fold [of "length b" b a] by (simp add: levenshtein_def del: upt_Suc)
  then show ?thesis by (simp add: lev_table_def)
qed


lemma levenshtein_le_max: "levenshtein a b \<le> max (length a) (length b)"
proof -
  have "lev xs ys \<le> max (length xs) (length ys)" for xs ys :: jsstring
    by (induction xs ys rule: lev.induct) (auto simp: min_def max_def)
  from this [of "rev a" "rev b"] show ?thesis by (simp add: levenshtein_lev)
qed

subsection \<open>Sorting, rescoring and the weight of an entry in a posting list\<close>









lemma weight_append: "weight (xs @ ys) j = weight xs j + weight ys j"
  by (simp add: weight_def)

lemma weight_concat: "weight (concat xss) j = sum_list (map (\<lambda>xs. weight xs j) xss)"
proof (induction xss)
  case Nil
  show ?case by (simp add: weight_def)
next
  case (Cons xs xss)
  then show ?case by (simp add: weight_append)
qed




subsection \<open>A catalogued string matches itself\<close>








subsection \<open>The index of exclamation marks\<close>


























section \<open>The claims\<close>

text \<open>
  C1, as the code has it. \<open>_get\<close> goes through the gram sizes from \<open>gramSizeUpper\<close> down to
  \<open>gramSizeLower\<close> and returns the first list that \<open>__get\<close> returns non-empty, that is
  after the threshold: a gram size is passed over when no candidate got a contribution
  there (\<open>__get\<close> returns null) and also when the threshold left none of its candidates.
  The result is null exactly when every configured gram size is passed over.
\<close>

theorem get_fallback:
  "(gramSizeLower st \<le> g \<and> g \<le> gramSizeUpper st \<and>
    uu_get lc st q g m = Inr (Some rs) \<and> rs \<noteq> [] \<and>
    (\<forall>g'. g < g' \<and> g' \<le> gramSizeUpper st \<longrightarrow>
       uu_get lc st q g' m = Inr None \<or> uu_get lc st q g' m = Inr (Some []))
    \<longrightarrow> u_get lc st q m = Inr (Some rs)) \<and>
   (u_get lc st q m = Inr None \<longleftrightarrow>
    (\<forall>g'. gramSizeLower st \<le> g' \<and> g' \<le> gramSizeUpper st \<longrightarrow>
       uu_get lc st q g' m = Inr None \<or> uu_get lc st q g' m = Inr (Some []))) \<and>
   (uu_get lc st q g m = Inr None \<longleftrightarrow> snd (query_matches lc st q g) = [])"
  using u_get_first_nonempty [of st g lc q m rs] u_get_none_iff [of lc st q m]
    uu_get_none_iff [of lc st q g m]
  by blast

theorem get_fallback_witness:
  "gramSizeLower example_index \<le> 2 \<and> 2 \<le> gramSizeUpper example_index \<and>
   gramSizeUpper example_index = 3 \<and>
   uu_get toLowerCase_ascii example_index (str ''ab'') 3 (Num 0.33) = Inr (Some []) \<and>
   uu_get toLowerCase_ascii example_index (str ''ab'') 2 (Num 0.33) =
     Inr (Some [(Num (2 / 3), Some (str ''axb'')), (Num (2 / 3), Some (str ''ayb''))]) \<and>
   u_get toLowerCase_ascii example_index (str ''ab'') (Num 0.33) =
     Inr (Some [(Num (2 / 3), Some (str ''axb'')), (Num (2 / 3), Some (str ''ayb''))])"
proof -
  have h1: "gramSizeLower example_index \<le> 2" and h2: "2 \<le> gramSizeUpper example_index"
    and h3: "gramSizeUpper example_index = 3"
    by (simp_all add: example_config)
  have h4: "[(Num (2 / 3), Some (str ''axb'')), (Num (2 / 3), Some (str ''ayb''))] \<noteq> []"
    by simp
  have h5: "\<forall>g'. 2 < g' \<and> g' \<le> gramSizeUpper example_index \<longrightarrow>
       uu_get toLowerCase_ascii example_index (str ''ab'') g' (Num 0.33) = Inr None \<or>
       uu_get toLowerCase_ascii example_index (str ''ab'') g' (Num 0.33) = Inr (Some [])"
  proof (intro allI impI)
    fix g' :: nat assume "2 < g' \<and> g' \<le> gramSizeUpper example_index"
    then have "g' = 3" by (simp add: example_config)
    then show "uu_get toLowerCase_ascii example_index (str ''ab'') g' (Num 0.33) = Inr None \<or>
       uu_get toLowerCase_ascii example_index (str ''ab'') g' (Num 0.33) = Inr (Some [])"
      using example_uu_get_3(1) by (simp only: simp_thms)
  qed
  have r: "u_get toLowerCase_ascii example_index (str ''ab'') (Num 0.33) =
     Inr (Some [(Num (2 / 3), Some (str ''axb'')), (Num (2 / 3), Some (str ''ayb''))])"
    by (rule mp [OF conjunct1 [OF get_fallback [where st = example_index and g = 2]]])
      (intro conjI h1 h2 example_uu_get_2 h4 h5)
  show ?thesis
    by (intro conjI h1 h2 h3 example_uu_get_3(1) example_uu_get_2 r)
qed

text \<open>
  C1 as stated fails on the example index with the defaults. At gram size 3 the query
  \<open>ab\<close> gives the first entry a contribution, and the threshold 0.33 leaves none (the
  edit-distance score of \<open>abxxxxx\<close> is 2/7); \<open>get\<close> does not stop there but returns what
  gram size 2 yields.
\<close>

theorem get_fallback_counterexample:
  "snd (query_matches toLowerCase_ascii example_index (str ''ab'') 3) = [(0, 1)] \<and>
   uu_get toLowerCase_ascii example_index (str ''ab'') 3 (Num 0.33) = Inr (Some []) \<and>
   get toLowerCase_ascii example_index (str ''ab'') (None :: nat option) None =
     Inr (Results [(Num (2 / 3), Some (str ''axb'')), (Num (2 / 3), Some (str ''ayb''))])"
proof -
  have sizes: "rev [gramSizeLower example_index ..< Suc (gramSizeUpper example_index)] = [3, 2]"
    by (simp add: example_config upt_rec)
  have "get toLowerCase_ascii example_index (str ''ab'') (None :: nat option) None =
     Inr (Results [(Num (2 / 3), Some (str ''axb'')), (Num (2 / 3), Some (str ''ayb''))])"
    unfolding get_def u_get_def sizes Let_def option.case u_get_loop.simps
      example_uu_get_3 example_uu_get_2
    by simp
  then show ?thesis
    by (intro conjI example_matches_3 example_uu_get_3(1))
qed

text \<open>
  C2, as the code has it. At one gram size, raising the threshold never increases the
  number of results of \<open>__get\<close> (null counts as no result); so \<open>get\<close> is monotone when only
  one gram size is configured.
\<close>

theorem threshold_monotone_at_one_gram_size:
  assumes "m1 \<le> m2"
  shows "result_count (uu_get lc st q g (Num m2)) \<le> result_count (uu_get lc st q g (Num m1)) \<and>
         (gramSizeLower st = gramSizeUpper st \<longrightarrow>
          get_count (get lc st q defaultValue (Some (Num m2))) \<le>
          get_count (get lc st q defaultValue (Some (Num m1))))"
  using uu_get_mono [OF assms] by (simp add: get_count_single)

theorem threshold_monotone_at_one_gram_size_witness:
  "(0.25 :: real) \<le> 0.33 \<and>
   result_count (uu_get toLowerCase_ascii example_index (str ''ab'') 3 (Num 0.33)) = 0 \<and>
   result_count (uu_get toLowerCase_ascii example_index (str ''ab'') 3 (Num 0.25)) = 1 \<and>
   gramSizeLower (empty_index True 2 2) = gramSizeUpper (empty_index True 2 2) \<and>
   get_count (get toLowerCase_ascii (empty_index True 2 2) (str ''ab'') (None :: nat option)
                (Some (Num 0.33))) \<le>
   get_count (get toLowerCase_ascii (empty_index True 2 2) (str ''ab'') (None :: nat option)
                (Some (Num 0.25)))"
proof -
  have h1: "(0.25 :: real) \<le> 0.33" by simp
  have h2: "gramSizeLower (empty_index True 2 2) = gramSizeUpper (empty_index True 2 2)"
    by (simp add: empty_index_def)
  note t = threshold_monotone_at_one_gram_size [OF h1]
  have r: "get_count (get toLowerCase_ascii (empty_index True 2 2) (str ''ab'') (None :: nat option)
                (Some (Num 0.33))) \<le>
   get_count (get toLowerCase_ascii (empty_index True 2 2) (str ''ab'') (None :: nat option)
                (Some (Num 0.25)))"
    by (rule mp [OF conjunct2 [OF t] h2])
  have c1: "result_count (uu_get toLowerCase_ascii example_index (str ''ab'') 3 (Num 0.33)) = 0"
    and c2: "result_count (uu_get toLowerCase_ascii example_index (str ''ab'') 3 (Num 0.25)) = 1"
    unfolding example_uu_get_3 result_count_def by simp_all
  show ?thesis
    by (intro conjI h1 h2 r c1 c2)
qed

text \<open>
  C2 as stated fails on the example index for the query \<open>ab\<close>: at the threshold 0.25
  gram size 3 answers with one result, and at the threshold 0.33 gram size 3 has nothing
  left, so that gram size 2 answers with two results.
\<close>

theorem threshold_counterexample:
  "(0.25 :: real) \<le> 0.33 \<and>
   get toLowerCase_ascii example_index (str ''ab'') (None :: nat option) (Some (Num 0.25)) =
     Inr (Results [(Num (2 / 7), Some (str ''abxxxxx''))]) \<and>
   get toLowerCase_ascii example_index (str ''ab'') (None :: nat option) (Some (Num 0.33)) =
     Inr (Results [(Num (2 / 3), Some (str ''axb'')), (Num (2 / 3), Some (str ''ayb''))]) \<and>
   get_count (get toLowerCase_ascii example_index (str ''ab'') (None :: nat option)
                (Some (Num 0.25))) <
   get_count (get toLowerCase_ascii example_index (str ''ab'') (None :: nat option)
                (Some (Num 0.33)))"
proof -
  have sizes: "rev [gramSizeLower example_index ..< Suc (gramSizeUpper example_index)] = [3, 2]"
    by (simp add: example_config upt_rec)
  have g1: "get toLowerCase_ascii example_index (str ''ab'') (None :: nat option) (Some (Num 0.25)) =
     Inr (Results [(Num (2 / 7), Some (str ''abxxxxx''))])"
    unfolding get_def u_get_def sizes Let_def option.case u_get_loop.simps example_uu_get_3
    by simp
  have g2: "get toLowerCase_ascii example_index (str ''ab'') (None :: nat option) (Some (Num 0.33)) =
     Inr (Results [(Num (2 / 3), Some (str ''axb'')), (Num (2 / 3), Some (str ''ayb''))])"
    unfolding get_def u_get_def sizes Let_def option.case u_get_loop.simps
      example_uu_get_3 example_uu_get_2
    by simp
  have lt: "get_count (get toLowerCase_ascii example_index (str ''ab'') (None :: nat option)
                (Some (Num 0.25))) <
   get_count (get toLowerCase_ascii example_index (str ''ab'') (None :: nat option)
                (Some (Num 0.33)))"
    unfolding g1 g2 get_count_def by simp
  have le: "(0.25 :: real) \<le> 0.33" by simp
  show ?thesis
    by (intro conjI le g1 g2 lt)
qed

text \<open>
  C3, as the code has it. The string that is padded and cut into grams is the lowercased
  value between two marker characters; the anchored expression removes characters only
  when no character of the lowercased value is in the class of word characters, and then
  it removes all of them. A value with a word character keeps every other character,
  at its start, at its end and inside.
\<close>

theorem normalization_all_or_nothing:
  "simplified lc v = dash # (if \<exists>c \<in> set (lc v). wordChar c then lc v else []) @ [dash]"
  by (simp add: simplified_def replace_nonWordRe_cases)

text \<open>
  C3 as stated fails: \<open>!\<close> is outside the class, and it is removed neither in front of
  \<open>Ab\<close> nor behind it.
\<close>

theorem normalization_counterexample:
  "\<not> wordChar 0x21 \<and>
   simplified toLowerCase_ascii (str ''!Ab'') = str ''-!ab-'' \<and>
   simplified toLowerCase_ascii (str ''Ab!'') = str ''-ab!-'' \<and>
   u_iterateGrams toLowerCase_ascii (str ''!Ab'') 2 = [str ''-!'', str ''!a'', str ''ab'', str ''b-'']"
  by (simp add: eval_gram)






text \<open>
  C6. The number that \<open>levenshtein\<close> computes with its rolling row is the Levenshtein
  distance: that many single-character insertions, deletions and substitutions transform
  the first string into the second, and no smaller number of them does. \<open>_distance\<close> of
  two strings is 1 minus that number divided by the greater length, in the arithmetic of
  JavaScript numbers; unless both strings are empty this is the real number
  \<open>1 - d / max (length a) (length b)\<close>.
\<close>

theorem levenshtein_is_edit_distance:
  "(edit1 ^^ levenshtein a b) a b \<and>
   (\<forall>n. (edit1 ^^ n) a b \<longrightarrow> levenshtein a b \<le> n) \<and>
   u_distance (Some a) (Some b) =
     Inr (js_sub (Num 1) (js_div (real (levenshtein a b)) (real (max (length a) (length b))))) \<and>
   (a \<noteq> [] \<or> b \<noteq> [] \<longrightarrow>
    u_distance (Some a) (Some b) =
      Inr (Num (1 - real (levenshtein a b) / real (max (length a) (length b)))))"
proof -
  have d: "u_distance (Some a) (Some b) =
     Inr (js_sub (Num 1) (js_div (real (levenshtein a b)) (real (max (length a) (length b)))))"
    by (simp add: u_distance_def Let_def max_def)
  have "js_div (real (levenshtein a b)) (real (max (length a) (length b))) =
        Num (real (levenshtein a b) / real (max (length a) (length b)))"
    if "a \<noteq> [] \<or> b \<noteq> []"
    using that by (auto simp: js_div_def max_def)
  with d show ?thesis
    using lev_minimal_edits [of a b] by (simp add: levenshtein_lev)
qed

theorem levenshtein_is_edit_distance_witness:
  "(edit1 ^^ 1) (str ''ab'') (str ''b'') \<and>
   levenshtein (str ''ab'') (str ''b'') \<le> 1 \<and>
   levenshtein (str ''ab'') (str ''b'') = 1 \<and>
   str ''ab'' \<noteq> [] \<and>
   u_distance (Some (str ''ab'')) (Some (str ''b'')) = Inr (Num (1 / 2)) \<and>
   levenshtein (str ''kitten'') (str ''sitting'') = 3"
proof -
  note t = levenshtein_is_edit_distance [of "str ''ab''" "str ''b''"]
  have "edit1 ([] @ 0x61 # [0x62 :: jschar]) ([] @ [0x62])"
    by (rule edit1.deletion)
  then have h1: "(edit1 ^^ 1) (str ''ab'') (str ''b'')"
    by (simp add: str_def eq_OO)
  have le: "levenshtein (str ''ab'') (str ''b'') \<le> 1"
    using conjunct1 [OF conjunct2 [OF t]] h1 by blast
  have eq: "levenshtein (str ''ab'') (str ''b'') = 1"
    by (simp add: levenshtein_def lev_outer_def lev_inner_def str_def upt_rec)
  have h2: "str ''ab'' \<noteq> []"
    by (simp add: str_def)
  have "u_distance (Some (str ''ab'')) (Some (str ''b'')) =
      Inr (Num (1 - real (levenshtein (str ''ab'') (str ''b'')) /
                    real (max (length (str ''ab'')) (length (str ''b'')))))"
    using conjunct2 [OF conjunct2 [OF conjunct2 [OF t]]] h2 by blast
  then have dist: "u_distance (Some (str ''ab'')) (Some (str ''b'')) = Inr (Num (1 / 2))"
    unfolding eq by (simp add: str_def)
  have k: "levenshtein (str ''kitten'') (str ''sitting'') = 3"
    by (simp add: levenshtein_def lev_outer_def lev_inner_def str_def upt_rec)
  show ?thesis
    by (intro conjI h1 le eq h2 dist k)
qed







text \<open>
  C10. Querying is case-insensitive: with a lowercasing that leaves lowercased strings as
  they are (which the built-in does), \<open>get\<close> on a query and \<open>get\<close> on its lowercased form
  return the same result, for every index, default value and threshold.
\<close>

theorem get_case_insensitive:
  "lc (lc q) = lc q \<Longrightarrow> get lc st (lc q) defaultValue m = get lc st q defaultValue m"
  by (simp add: get_def u_get_def u_get_loop_normalized)

theorem get_case_insensitive_witness:
  "toLowerCase_ascii (toLowerCase_ascii (str ''Ab'')) = toLowerCase_ascii (str ''Ab'') \<and>
   get toLowerCase_ascii (FuzzySet toLowerCase_ascii [str ''ab''] None None None)
     (toLowerCase_ascii (str ''Ab'')) (None :: nat option) None =
   get toLowerCase_ascii (FuzzySet toLowerCase_ascii [str ''ab''] None None None)
     (str ''Ab'') None None"
proof -
  have h: "toLowerCase_ascii (toLowerCase_ascii (str ''Ab'')) = toLowerCase_ascii (str ''Ab'')"
    by (simp add: toLowerCase_ascii_def str_def)
  show ?thesis
    using h get_case_insensitive [of toLowerCase_ascii "str ''Ab''", OF h] by blast
qed

end
